theory Spec2Isabelle
  imports Complex_Main "HOL-Library.AList"
begin

section \<open>Dates (hudy/utils/date.py over Python's datetime.date)\<close>

text \<open>
  A Python \<open>datetime.date\<close> is immutable and determined by its proleptic Gregorian
  ordinal (\<open>date.toordinal()\<close>): 1 is 0001-01-01 (\<open>date.min\<close>) and 3652059 is
  9999-12-31 (\<open>date.max\<close>). A date is represented by that ordinal, so the comparison
  of two dates is the comparison of their ordinals. Adding a \<open>timedelta\<close> that leaves
  the range raises \<open>OverflowError\<close>.
\<close>

type_synonym date = int

definition MINORD :: int where
  "MINORD = 1"

definition MAXORD :: int where
  "MAXORD = 3652059"

definition valid_date :: "date \<Rightarrow> bool" where
  "valid_date d \<longleftrightarrow> MINORD \<le> d \<and> d \<le> MAXORD"

datatype error = ValueError | OverflowError

text \<open>\<open>d.weekday()\<close> is \<open>(d.toordinal() + 6) % 7\<close>, Monday being 0.\<close>

definition weekday :: "date \<Rightarrow> int" where
  "weekday d = (d + 6) mod 7"

definition is_weekend :: "date \<Rightarrow> bool" where
  "is_weekend d \<longleftrightarrow> weekday d = 5 \<or> weekday d = 6"

definition add_days :: "date \<Rightarrow> int \<Rightarrow> error + date" where
  "add_days d days =
     (let r = d + days in
      if MINORD \<le> r \<and> r \<le> MAXORD then Inr r else Inl OverflowError)"

text \<open>
  The year, month and day of an ordinal, as the standard library computes them
  (\<open>_ord2ymd\<close> of datetime.py): 400-year, 100-year and 4-year cycles, then the month
  estimated by \<open>(n + 50) >> 5\<close> and corrected with the table of days before a month.
\<close>

definition DAYS_IN_MONTH :: "int list" where
  "DAYS_IN_MONTH = [-1, 31, 28, 31, 30, 31, 30, 31, 31, 30, 31, 30, 31]"

definition DAYS_BEFORE_MONTH :: "int list" where
  "DAYS_BEFORE_MONTH = [-1, 0, 31, 59, 90, 120, 151, 181, 212, 243, 273, 304, 334]"

definition ord2ymd :: "int \<Rightarrow> int \<times> int \<times> int" where
  "ord2ymd n0 =
     (let n = n0 - 1;
          n400 = n div 146097; n = n mod 146097;
          n100 = n div 36524; n = n mod 36524;
          n4 = n div 1461; n = n mod 1461;
          n1 = n div 365; n = n mod 365;
          year = n400 * 400 + 1 + n100 * 100 + n4 * 4 + n1
      in if n1 = 4 \<or> n100 = 4 then (year - 1, 12, 31)
         else
           let leapyear = (n1 = 3 \<and> (n4 \<noteq> 24 \<or> n100 = 3));
               month = (n + 50) div 32;
               preceding = DAYS_BEFORE_MONTH ! nat month
                           + (if month > 2 \<and> leapyear then 1 else 0)
           in if preceding > n
              then let month' = month - 1;
                       preceding' = preceding
                         - (DAYS_IN_MONTH ! nat month'
                            + (if month' = 2 \<and> leapyear then 1 else 0))
                   in (year, month', n - preceding' + 1)
              else (year, month, n - preceding + 1))"

definition date_year :: "date \<Rightarrow> int" where
  "date_year d = fst (ord2ymd d)"

definition date_month :: "date \<Rightarrow> int" where
  "date_month d = fst (snd (ord2ymd d))"

definition date_day :: "date \<Rightarrow> int" where
  "date_day d = snd (snd (ord2ymd d))"

subsection \<open>Decimal strings\<close>

definition digit_char :: "nat \<Rightarrow> char" where
  "digit_char k = ''0123456789'' ! k"

fun digits :: "nat \<Rightarrow> string" where
  "digits k = (if k < 10 then [digit_char k]
               else digits (k div 10) @ [digit_char (k mod 10)])"

declare digits.simps [simp del]

text \<open>\<open>str(i)\<close> of a Python integer.\<close>

definition str_int :: "int \<Rightarrow> string" where
  "str_int i = (if i < 0 then CHR ''-'' # digits (nat (- i)) else digits (nat i))"

text \<open>A field of \<open>strftime\<close> padded with zeros on the left to a width.\<close>

definition zero_pad :: "nat \<Rightarrow> string \<Rightarrow> string" where
  "zero_pad w s = replicate (w - length s) CHR ''0'' @ s"

text \<open>
  \<open>d.strftime("%Y-%m-%d")\<close>: the year in decimal as the C library prints it, without
  leading zeros (\<open>date(999, 6, 5)\<close> gives \<open>999-06-05\<close>), then two digits of month and
  two of day.
\<close>

definition format_date :: "date \<Rightarrow> string" where
  "format_date d =
     str_int (date_year d) @ ''-'' @
     zero_pad 2 (str_int (date_month d)) @ ''-'' @
     zero_pad 2 (str_int (date_day d))"


section \<open>Holidays (hudy/types.py)\<close>

datatype holiday_type = public | custom

text \<open>The fields of \<open>Holiday\<close>, each with the prefix \<open>h_\<close>.\<close>

record Holiday =
  h_id :: string
  h_name :: string
  h_date :: string
  h_year :: int
  h_month :: int
  h_day :: int
  h_day_of_week :: string
  h_type :: holiday_type

section \<open>Business days (hudy/utils/business_days.py)\<close>

text \<open>
  The calculator keeps one field, the set of the \<open>date\<close> strings of the holidays it
  was built from.
\<close>

record BusinessDayCalculator =
  holiday_set :: "string set"

definition init_calculator :: "Holiday list \<Rightarrow> BusinessDayCalculator" where
  "init_calculator holidays = \<lparr>holiday_set = set (map h_date holidays)\<rparr>"

definition is_business_day :: "BusinessDayCalculator \<Rightarrow> date \<Rightarrow> bool" where
  "is_business_day self d =
     (if is_weekend d then False
      else format_date d \<notin> holiday_set self)"

text \<open>The loop of \<open>count_business_days\<close>, with its locals \<open>current\<close> and \<open>count\<close>.\<close>

function count_loop ::
  "BusinessDayCalculator \<Rightarrow> date \<Rightarrow> date \<Rightarrow> int \<Rightarrow> error + int" where
  "count_loop self to_date current count =
     (if current \<le> to_date
      then let count' = (if is_business_day self current then count + 1 else count)
           in case add_days current 1 of
                Inl e \<Rightarrow> Inl e
              | Inr c \<Rightarrow> count_loop self to_date c count'
      else Inr count)"
  by pat_completeness auto
termination
  by (relation "measure (\<lambda>(self, to_date, current, count). nat (to_date + 1 - current))")
     (auto simp: add_days_def Let_def split: if_splits)

definition count_business_days ::
  "BusinessDayCalculator \<Rightarrow> date \<Rightarrow> date \<Rightarrow> error + int" where
  "count_business_days self from_date to_date =
     (if from_date > to_date then Inl ValueError
      else count_loop self to_date from_date 0)"

text \<open>The loop of \<open>get_business_days_in_range\<close>; \<open>append\<close> adds at the end.\<close>

function range_loop ::
  "BusinessDayCalculator \<Rightarrow> date \<Rightarrow> date \<Rightarrow> date list \<Rightarrow> error + date list" where
  "range_loop self to_date current business_days =
     (if current \<le> to_date
      then let business_days' =
                 (if is_business_day self current then business_days @ [current]
                  else business_days)
           in case add_days current 1 of
                Inl e \<Rightarrow> Inl e
              | Inr c \<Rightarrow> range_loop self to_date c business_days'
      else Inr business_days)"
  by pat_completeness auto
termination
  by (relation "measure (\<lambda>(self, to_date, current, bds). nat (to_date + 1 - current))")
     (auto simp: add_days_def Let_def split: if_splits)

definition get_business_days_in_range ::
  "BusinessDayCalculator \<Rightarrow> date \<Rightarrow> date \<Rightarrow> error + date list" where
  "get_business_days_in_range self from_date to_date =
     (if from_date > to_date then Inl ValueError
      else range_loop self to_date from_date [])"

text \<open>
  The loops of \<open>get_next_business_day\<close> and \<open>get_previous_business_day\<close>: step while
  the current date is not a business day.
\<close>

function next_loop :: "BusinessDayCalculator \<Rightarrow> date \<Rightarrow> error + date" where
  "next_loop self current =
     (if \<not> is_business_day self current
      then case add_days current 1 of
             Inl e \<Rightarrow> Inl e
           | Inr c \<Rightarrow> next_loop self c
      else Inr current)"
  by pat_completeness auto
termination
  by (relation "measure (\<lambda>(self, current). nat (MAXORD - current))")
     (auto simp: add_days_def Let_def split: if_splits)

definition get_next_business_day :: "BusinessDayCalculator \<Rightarrow> date \<Rightarrow> error + date" where
  "get_next_business_day self from_date =
     (case add_days from_date 1 of
        Inl e \<Rightarrow> Inl e
      | Inr current \<Rightarrow> next_loop self current)"

function prev_loop :: "BusinessDayCalculator \<Rightarrow> date \<Rightarrow> error + date" where
  "prev_loop self current =
     (if \<not> is_business_day self current
      then case add_days current (-1) of
             Inl e \<Rightarrow> Inl e
           | Inr c \<Rightarrow> prev_loop self c
      else Inr current)"
  by pat_completeness auto
termination
  by (relation "measure (\<lambda>(self, current). nat (current - MINORD))")
     (auto simp: add_days_def Let_def split: if_splits)

definition get_previous_business_day ::
  "BusinessDayCalculator \<Rightarrow> date \<Rightarrow> error + date" where
  "get_previous_business_day self from_date =
     (case add_days from_date (-1) of
        Inl e \<Rightarrow> Inl e
      | Inr current \<Rightarrow> prev_loop self current)"

text \<open>
  The loop of \<open>add_business_days\<close>. Its locals \<open>direction\<close> and \<open>remaining\<close> do not
  change in the loop and are computed from \<open>days\<close>.
\<close>

definition direction :: "int \<Rightarrow> int" where
  "direction days = (if days > 0 then 1 else -1)"

function add_loop ::
  "BusinessDayCalculator \<Rightarrow> int \<Rightarrow> date \<Rightarrow> int \<Rightarrow> error + date" where
  "add_loop self days current added =
     (if added < \<bar>days\<bar>
      then case add_days current (direction days) of
             Inl e \<Rightarrow> Inl e
           | Inr c \<Rightarrow>
               add_loop self days c (if is_business_day self c then added + 1 else added)
      else Inr current)"
  by pat_completeness auto
termination
  by (relation "measure (\<lambda>(self, days, current, added).
                  if days > 0 then nat (MAXORD - current) else nat (current - MINORD))")
     (auto simp: add_days_def direction_def Let_def split: if_splits)

definition add_business_days ::
  "BusinessDayCalculator \<Rightarrow> date \<Rightarrow> int \<Rightarrow> error + date" where
  "add_business_days self from_date days =
     (if days = 0 then Inr from_date
      else add_loop self days from_date 0)"

section \<open>Strings as Python compares them\<close>

text \<open>
  \<open>a <= b\<close> on two \<open>str\<close>: the first position where they differ decides, by code
  point; a proper prefix is smaller.
\<close>

fun str_le :: "string \<Rightarrow> string \<Rightarrow> bool" where
  "str_le [] ys = True"
| "str_le (x # xs) [] = False"
| "str_le (x # xs) (y # ys) =
     (if (of_char x :: nat) < of_char y then True
      else if (of_char x :: nat) = of_char y then str_le xs ys
      else False)"

section \<open>The cache (hudy/cache.py)\<close>

text \<open>
  The clock is a parameter: \<open>now\<close> is the reading of \<open>time.time()\<close>, in seconds, and
  \<open>current_year\<close> that of \<open>datetime.now().year\<close>. Seconds are modelled as real
  numbers. The dictionary \<open>_store\<close> is an association list in insertion order, with
  one pair per key.
\<close>

record CacheEntry =
  data :: "Holiday list"
  expires_at :: real

record SmartCache =
  store :: "(string \<times> CacheEntry) list"
  hits :: int
  misses :: int
  custom_ttl :: "int option"

definition init_cache :: "int option \<Rightarrow> SmartCache" where
  "init_cache ttl = \<lparr>store = [], hits = 0, misses = 0, custom_ttl = ttl\<rparr>"

definition get_year_key :: "int \<Rightarrow> string" where
  "get_year_key year = ''year:'' @ str_int year"

definition get_ttl :: "SmartCache \<Rightarrow> int \<Rightarrow> int \<Rightarrow> int" where
  "get_ttl self current_year year =
     (case custom_ttl self of
        Some t \<Rightarrow> t
      | None \<Rightarrow>
          if year < current_year then 365 * 24 * 60 * 60
          else if year = current_year then 24 * 60 * 60
          else 7 * 24 * 60 * 60)"

text \<open>
  \<open>get\<close> returns the value and the cache after the call. \<open>not entry\<close> holds only
  for a missing key: a \<open>CacheEntry\<close> object is always true.
\<close>

definition get :: "SmartCache \<Rightarrow> real \<Rightarrow> int \<Rightarrow> Holiday list option \<times> SmartCache" where
  "get self now year =
     (let key = get_year_key year in
      case map_of (store self) key of
        None \<Rightarrow> (None, self\<lparr>misses := misses self + 1\<rparr>)
      | Some entry \<Rightarrow>
          if now > expires_at entry
          then (None, self\<lparr>store := AList.delete key (store self),
                             misses := misses self + 1\<rparr>)
          else (Some (data entry), self\<lparr>hits := hits self + 1\<rparr>))"

definition set_cache :: "SmartCache \<Rightarrow> real \<Rightarrow> int \<Rightarrow> int \<Rightarrow> Holiday list \<Rightarrow> SmartCache" where
  "set_cache self now current_year year holidays =
     (let key = get_year_key year;
          ttl = get_ttl self current_year year;
          expires = now + of_int ttl
      in self\<lparr>store := AList.update key \<lparr>data = holidays, expires_at = expires\<rparr>
                           (store self)\<rparr>)"

definition in_range :: "string \<Rightarrow> string \<Rightarrow> Holiday \<Rightarrow> bool" where
  "in_range from_str to_str h \<longleftrightarrow> str_le from_str (h_date h) \<and> str_le (h_date h) to_str"

text \<open>
  The loop of \<open>get_range\<close> over the years of a range of several years. \<open>not cached\<close>
  holds for \<open>None\<close> and for the empty list. The readings of the clock made during one
  call of \<open>get_range\<close> are taken to be the same instant.
\<close>

fun get_years ::
  "SmartCache \<Rightarrow> real \<Rightarrow> int list \<Rightarrow> Holiday list \<Rightarrow> Holiday list option \<times> SmartCache" where
  "get_years self now [] all_holidays = (Some all_holidays, self)"
| "get_years self now (year # years) all_holidays =
     (case get self now year of
        (None, self') \<Rightarrow> (None, self')
      | (Some cached, self') \<Rightarrow>
          if cached = [] then (None, self')
          else get_years self' now years (all_holidays @ cached))"

definition get_range ::
  "SmartCache \<Rightarrow> real \<Rightarrow> date \<Rightarrow> date \<Rightarrow> Holiday list option \<times> SmartCache" where
  "get_range self now from_date to_date =
     (let from_year = date_year from_date;
          to_year = date_year to_date;
          from_str = format_date from_date;
          to_str = format_date to_date
      in if from_year = to_year
         then (case get self now from_year of
                 (None, self') \<Rightarrow> (None, self')
               | (Some cached, self') \<Rightarrow>
                   if cached = [] then (None, self')
                   else (Some (filter (in_range from_str to_str) cached), self'))
         else (case get_years self now [from_year..to_year] [] of
                 (None, self') \<Rightarrow> (None, self')
               | (Some all_holidays, self') \<Rightarrow>
                   (Some (filter (in_range from_str to_str) all_holidays), self')))"

definition clear :: "SmartCache \<Rightarrow> SmartCache" where
  "clear self = self\<lparr>store := [], hits := 0, misses := 0\<rparr>"

text \<open>\<open>prune\<close> returns the number of keys it removed and the cache after the call.\<close>

definition prune :: "SmartCache \<Rightarrow> real \<Rightarrow> int \<times> SmartCache" where
  "prune self now =
     (let to_remove = map fst (filter (\<lambda>(key, entry). now > expires_at entry) (store self))
      in (int (length to_remove),
          self\<lparr>store := fold AList.delete to_remove (store self)\<rparr>))"


declare count_loop.simps [simp del] range_loop.simps [simp del] next_loop.simps [simp del]
  prev_loop.simps [simp del] add_loop.simps [simp del]

section \<open>Sample data\<close>

text \<open>A holiday on New Year's Day 2024 whose \<open>date\<close> field is the given string.\<close>

definition new_year_2024 :: "string \<Rightarrow> Holiday" where
  "new_year_2024 s = \<lparr>h_id = ''1'', h_name = ''New Year'', h_date = s, h_year = 2024,
     h_month = 1, h_day = 1, h_day_of_week = ''Monday'', h_type = public\<rparr>"


text \<open>A calculator without holidays, and the cache of a new client.\<close>

definition no_holidays :: BusinessDayCalculator where
  "no_holidays = init_calculator []"

definition empty_cache :: SmartCache where
  "empty_cache = init_cache None"

text \<open>A cache that holds the year 2020, with the given holidays, until the instant 100.\<close>

definition cache_2020 :: "Holiday list \<Rightarrow> SmartCache" where
  "cache_2020 hs = \<lparr>store = [(get_year_key 2020, \<lparr>data = hs, expires_at = 100\<rparr>)],
     hits = 0, misses = 0, custom_ttl = None\<rparr>"

section \<open>Some dates\<close>


lemma format_date_739251: "format_date 739251 = ''2024-12-31''"
  by code_simp


section \<open>The business-day predicate\<close>







section \<open>The cache\<close>

text \<open>
  C3: the entry that \<open>set\<close> stores for a year holds the holidays given and expires at
  \<open>now\<close> plus the TTL: the override when the cache has one, whatever the year;
  otherwise 365 days for a year before the current one, one day for the current year,
  seven days for a later year.
\<close>

theorem set_ttl_spec:
  "map_of (store (set_cache self now current_year Y holidays)) (get_year_key Y) =
     Some \<lparr>data = holidays,
           expires_at = now + of_int
             (case custom_ttl self of
                Some t \<Rightarrow> t
              | None \<Rightarrow> if Y < current_year then 365 * 86400
                        else if Y = current_year then 86400
                        else 7 * 86400)\<rparr>"
  by (simp add: set_cache_def get_ttl_def update_conv' split: option.splits)

theorem set_ttl_spec_witness:
  "map_of (store (set_cache empty_cache 1000 2024 2020 [])) (get_year_key 2020)
     = Some \<lparr>data = [], expires_at = 31537000\<rparr>
   \<and> map_of (store (set_cache empty_cache 1000 2024 2024 [])) (get_year_key 2024)
     = Some \<lparr>data = [], expires_at = 87400\<rparr>
   \<and> map_of (store (set_cache empty_cache 1000 2024 2025 [])) (get_year_key 2025)
     = Some \<lparr>data = [], expires_at = 605800\<rparr>
   \<and> map_of (store (set_cache (init_cache (Some 60)) 1000 2024 2020 [])) (get_year_key 2020)
     = Some \<lparr>data = [], expires_at = 1060\<rparr>"
  using set_ttl_spec [where self = empty_cache and now = 1000 and current_year = 2024
                        and Y = 2020 and holidays = "[]"]
    set_ttl_spec [where self = empty_cache and now = 1000 and current_year = 2024
                  and Y = 2024 and holidays = "[]"]
    set_ttl_spec [where self = empty_cache and now = 1000 and current_year = 2024
                  and Y = 2025 and holidays = "[]"]
    set_ttl_spec [where self = "init_cache (Some 60)" and now = 1000 and current_year = 2024
                  and Y = 2020 and holidays = "[]"]
  by (simp add: empty_cache_def init_cache_def)

text \<open>
  C2: \<open>get\<close> on a year without entry counts a miss and returns nothing; on an entry
  whose expiry is strictly before \<open>now\<close> it deletes that entry (and no other), counts
  a miss and returns nothing; otherwise it counts a hit and returns the stored list as
  it is. After \<open>set\<close> at the instant \<open>start\<close>, \<open>get\<close> for the same year returns the list
  stored as long as \<open>now\<close> is not after the expiry, and nothing afterwards.
\<close>

theorem get_spec:
  "(case map_of (store self) (get_year_key Y) of
      None \<Rightarrow> get self now Y = (None, self\<lparr>misses := misses self + 1\<rparr>)
    | Some e \<Rightarrow>
        if now > expires_at e
        then fst (get self now Y) = None
             \<and> map_of (store (snd (get self now Y))) (get_year_key Y) = None
             \<and> (\<forall>k. k \<noteq> get_year_key Y \<longrightarrow>
                   map_of (store (snd (get self now Y))) k = map_of (store self) k)
             \<and> misses (snd (get self now Y)) = misses self + 1
             \<and> hits (snd (get self now Y)) = hits self
        else get self now Y = (Some (data e), self\<lparr>hits := hits self + 1\<rparr>))
   \<and> fst (get (set_cache self start current_year Y hs) now Y) =
       (if now > start + of_int (get_ttl self current_year Y) then None else Some hs)"
  by (auto simp: get_def set_cache_def update_conv' delete_conv' Let_def
           split: option.splits)

theorem get_spec_witness:
  "get empty_cache 50 2020 = (None, empty_cache\<lparr>misses := 1\<rparr>)
   \<and> fst (get (cache_2020 [new_year_2024 ''2024-01-01'']) 200 2020) = None
   \<and> map_of (store (snd (get (cache_2020 [new_year_2024 ''2024-01-01'']) 200 2020)))
        (get_year_key 2020) = None
   \<and> misses (snd (get (cache_2020 [new_year_2024 ''2024-01-01'']) 200 2020)) = 1
   \<and> get (cache_2020 [new_year_2024 ''2024-01-01'']) 100 2020 =
        (Some [new_year_2024 ''2024-01-01''],
         (cache_2020 [new_year_2024 ''2024-01-01''])\<lparr>hits := 1\<rparr>)
   \<and> fst (get (set_cache empty_cache 1000 2024 2024 [new_year_2024 ''2024-01-01''])
             87400 2024) = Some [new_year_2024 ''2024-01-01'']
   \<and> fst (get (set_cache empty_cache 1000 2024 2024 [new_year_2024 ''2024-01-01''])
             87401 2024) = None"
  using get_spec [where self = empty_cache and Y = 2020 and now = 50 and start = 0
                    and current_year = 0 and hs = "[]"]
    get_spec [where self = "cache_2020 [new_year_2024 ''2024-01-01'']" and Y = 2020
              and now = 200 and start = 0 and current_year = 0 and hs = "[]"]
    get_spec [where self = "cache_2020 [new_year_2024 ''2024-01-01'']" and Y = 2020
              and now = 100 and start = 0 and current_year = 0 and hs = "[]"]
    get_spec [where self = empty_cache and Y = 2024 and now = 87400 and start = 1000
              and current_year = 2024 and hs = "[new_year_2024 ''2024-01-01'']"]
    get_spec [where self = empty_cache and Y = 2024 and now = 87401 and start = 1000
              and current_year = 2024 and hs = "[new_year_2024 ''2024-01-01'']"]
  by (simp add: empty_cache_def init_cache_def cache_2020_def get_ttl_def)

text \<open>
  Deleting the keys of a list one after the other keeps the pairs with other keys; with
  one pair per key, the pairs removed are those that were selected.
\<close>

lemma fold_delete_filter:
  "fold AList.delete ks al = filter (\<lambda>(k, v). k \<notin> set ks) al"
proof (induction ks arbitrary: al)
  case Nil
  then show ?case by simp
next
  case (Cons k ks)
  have "AList.delete k al = filter (\<lambda>(k', v). k' \<noteq> k) al"
    by (auto simp: AList.delete_eq intro: filter_cong)
  then show ?case
    by (auto simp: Cons.IH intro: filter_cong)
qed

lemma removed_keys:
  assumes "distinct (map fst al)"
  shows "filter (\<lambda>(k, v). k \<notin> set (map fst (filter P al))) al = filter (\<lambda>kv. \<not> P kv) al"
proof (rule filter_cong [OF refl])
  fix kv assume kv: "kv \<in> set al"
  obtain k v where [simp]: "kv = (k, v)" by (cases kv)
  have "k \<in> fst ` {x \<in> set al. P x} \<longleftrightarrow> P (k, v)"
  proof
    assume "k \<in> fst ` {x \<in> set al. P x}"
    then obtain v' where v': "(k, v') \<in> set al" "P (k, v')" by auto
    have "v' = v" using assms v'(1) kv by (auto dest: eq_key_imp_eq_value)
    then show "P (k, v)" using v'(2) by simp
  next
    assume "P (k, v)"
    then show "k \<in> fst ` {x \<in> set al. P x}" using kv by force
  qed
  then show "(case kv of (k, v) \<Rightarrow> k \<notin> set (map fst (filter P al))) = (\<not> P kv)"
    by simp
qed

text \<open>
  C7 (as amended): \<open>prune\<close> deletes the entries whose expiry is strictly before
  \<open>now\<close> and keeps the others in their order, returns the number of entries it
  removed, and leaves the counters of hits and misses as they were; afterwards no
  entry has an expiry strictly before \<open>now\<close>. An entry that expires exactly at
  \<open>now\<close> stays, as it does in \<open>get\<close>.
\<close>

theorem prune_spec:
  assumes "distinct (map fst (store self))"
  shows "store (snd (prune self now)) =
           filter (\<lambda>(key, entry). \<not> now > expires_at entry) (store self)
       \<and> fst (prune self now) =
           int (length (store self)) - int (length (store (snd (prune self now))))
       \<and> hits (snd (prune self now)) = hits self
       \<and> misses (snd (prune self now)) = misses self
       \<and> (\<forall>(key, entry) \<in> set (store (snd (prune self now))). \<not> expires_at entry < now)"
proof -
  let ?P = "\<lambda>(key, entry). now > expires_at (entry :: CacheEntry)"
  have st: "store (snd (prune self now)) = filter (\<lambda>kv. \<not> ?P kv) (store self)"
    using removed_keys [OF assms, of ?P]
    by (simp add: prune_def Let_def fold_delete_filter)
  have eq: "(\<lambda>kv. \<not> ?P kv) = (\<lambda>(key, entry). \<not> now > expires_at entry)"
    by auto
  have cnt: "fst (prune self now) = int (length (filter ?P (store self)))"
    by (simp add: prune_def Let_def)
  have "length (filter ?P (store self)) + length (filter (\<lambda>kv. \<not> ?P kv) (store self))
        = length (store self)"
    by (rule sum_length_filter_compl)
  then have "int (length (filter ?P (store self))) =
      int (length (store self)) - int (length (filter (\<lambda>kv. \<not> ?P kv) (store self)))"
    by linarith
  then show ?thesis
    unfolding cnt st by (auto simp: prune_def Let_def case_prod_unfold)
qed

text \<open>
  The cache holding 2020 until the instant 100: pruned at 101 it loses its entry, pruned
  at 100 it keeps it.
\<close>

theorem prune_spec_witness:
  "distinct (map fst (store (cache_2020 [])))
   \<and> prune (cache_2020 []) 101 = (1, (cache_2020 [])\<lparr>store := []\<rparr>)
   \<and> prune (cache_2020 []) 100 = (0, cache_2020 [])"
proof -
  have d: "distinct (map fst (store (cache_2020 [])))"
    by (simp add: cache_2020_def)
  have "store (snd (prune (cache_2020 []) 101)) = []"
       "store (snd (prune (cache_2020 []) 100)) = store (cache_2020 [])"
    using prune_spec [OF d, of 101] prune_spec [OF d, of 100]
    by (simp_all add: cache_2020_def)
  then show ?thesis using d
    by (simp add: prune_def Let_def cache_2020_def)
qed

text \<open>
  The claim C7 as stated fails when an entry expires exactly at \<open>now\<close>: pruning at
  the instant 100 removes nothing from a cache whose only entry expires at 100, so an
  entry with an expiry not after \<open>now\<close> remains.
\<close>

theorem prune_keeps_entry_expiring_now:
  "prune (cache_2020 []) 100 = (0, cache_2020 [])
   \<and> store (cache_2020 []) = [(get_year_key 2020, \<lparr>data = [], expires_at = 100\<rparr>)]"
  by (simp add: prune_def Let_def cache_2020_def)

text \<open>
  \<open>get_range\<close> within one year: the list of the year filtered by the two bounds,
  provided the entry is there, has not expired and its list is not empty.
\<close>

lemma year_2020: "date_year 737425 = 2020" "date_year 737790 = 2020"
  by code_simp+

lemma get_range_single_year:
  assumes "date_year from_date = date_year to_date"
  shows "fst (get_range self now from_date to_date) =
     (case map_of (store self) (get_year_key (date_year from_date)) of
        None \<Rightarrow> None
      | Some entry \<Rightarrow>
          if now > expires_at entry \<or> data entry = [] then None
          else Some (filter (in_range (format_date from_date) (format_date to_date))
                       (data entry)))"
  using assms by (auto simp: get_range_def get_def Let_def split: option.splits)

text \<open>
  C6 (the code departs from the claim): the year 2020 is stored with an empty list
  until the instant 100. At the instant 50 the entry is present and has not expired,
  and \<open>get\<close> counts a hit; \<open>get_range\<close> over 2020-01-01 .. 2020-12-31 returns nothing
  (\<open>None\<close>), not the empty list of the holidays in the range.
\<close>

theorem get_range_empty_year:
  "map_of (store (cache_2020 [])) (get_year_key (date_year 737425))
     = Some \<lparr>data = [], expires_at = 100\<rparr>
   \<and> date_year 737790 = date_year 737425
   \<and> get_range (cache_2020 []) 50 737425 737790 = (None, (cache_2020 [])\<lparr>hits := 1\<rparr>)"
  by (simp add: year_2020 get_range_def get_def Let_def cache_2020_def)

section \<open>Stepping over days\<close>

lemma add_days_1: "add_days c 1 = (if MINORD \<le> c + 1 \<and> c + 1 \<le> MAXORD then Inr (c + 1) else Inl OverflowError)"
  by (simp add: add_days_def Let_def)

lemma add_days_m1: "add_days c (-1) = (if MINORD \<le> c - 1 \<and> c - 1 \<le> MAXORD then Inr (c - 1) else Inl OverflowError)"
  by (simp add: add_days_def Let_def)

lemma next_loop_Inr_iff:
  "MINORD \<le> c \<Longrightarrow> c \<le> MAXORD \<Longrightarrow>
   next_loop self c = Inr r \<longleftrightarrow>
     c \<le> r \<and> r \<le> MAXORD \<and> is_business_day self r
     \<and> (\<forall>x. c \<le> x \<and> x < r \<longrightarrow> \<not> is_business_day self x)"
proof (induction self c rule: next_loop.induct)
  case (1 self current)
  show ?case
  proof (cases "is_business_day self current")
    case True
    have "next_loop self current = Inr current"
      using True by (subst next_loop.simps) simp
    moreover have "r = current" if "current \<le> r" "\<forall>x. current \<le> x \<and> x < r \<longrightarrow> \<not> is_business_day self x"
      using that True by (cases "current < r") auto
    ultimately show ?thesis using True "1.prems" by auto
  next
    case False
    show ?thesis
    proof (cases "current + 1 \<le> MAXORD")
      case le: True
      have step: "add_days current 1 = Inr (current + 1)"
        using le "1.prems" by (simp add: add_days_1)
      have unf: "next_loop self current = next_loop self (current + 1)"
        using False step by (subst next_loop.simps) simp
      have IH: "next_loop self (current + 1) = Inr r \<longleftrightarrow>
          current + 1 \<le> r \<and> r \<le> MAXORD \<and> is_business_day self r
          \<and> (\<forall>x. current + 1 \<le> x \<and> x < r \<longrightarrow> \<not> is_business_day self x)"
        using "1.IH" [OF False step] le "1.prems" by simp
      have "(\<forall>x. current \<le> x \<and> x < r \<longrightarrow> \<not> is_business_day self x)
            \<longleftrightarrow> (\<forall>x. current + 1 \<le> x \<and> x < r \<longrightarrow> \<not> is_business_day self x)"
        using False by (metis add1_zle_eq order_le_less)
      moreover have "current \<le> r \<and> is_business_day self r \<longleftrightarrow> current + 1 \<le> r \<and> is_business_day self r"
        using False by (metis add1_zle_eq order_le_less)
      ultimately show ?thesis unfolding unf IH by blast
    next
      case gt: False
      have "add_days current 1 = Inl OverflowError"
        using gt by (simp add: add_days_1)
      then have "next_loop self current = Inl OverflowError"
        using False by (subst next_loop.simps) simp
      moreover have "\<not> (current \<le> r \<and> r \<le> MAXORD \<and> is_business_day self r)"
        using gt False "1.prems" by (cases "r = current") auto
      ultimately show ?thesis by auto
    qed
  qed
qed

lemma next_loop_Inl_iff:
  "MINORD \<le> c \<Longrightarrow> c \<le> MAXORD \<Longrightarrow>
   next_loop self c = Inl e \<longleftrightarrow>
     e = OverflowError \<and> (\<forall>x. c \<le> x \<and> x \<le> MAXORD \<longrightarrow> \<not> is_business_day self x)"
proof (induction self c rule: next_loop.induct)
  case (1 self current)
  show ?case
  proof (cases "is_business_day self current")
    case True
    have "next_loop self current = Inr current"
      using True by (subst next_loop.simps) simp
    then show ?thesis using True "1.prems" by auto
  next
    case False
    show ?thesis
    proof (cases "current + 1 \<le> MAXORD")
      case le: True
      have step: "add_days current 1 = Inr (current + 1)"
        using le "1.prems" by (simp add: add_days_1)
      have unf: "next_loop self current = next_loop self (current + 1)"
        using False step by (subst next_loop.simps) simp
      have IH: "next_loop self (current + 1) = Inl e \<longleftrightarrow>
          e = OverflowError \<and> (\<forall>x. current + 1 \<le> x \<and> x \<le> MAXORD \<longrightarrow> \<not> is_business_day self x)"
        using "1.IH" [OF False step] le "1.prems" by simp
      have "(\<forall>x. current \<le> x \<and> x \<le> MAXORD \<longrightarrow> \<not> is_business_day self x)
            \<longleftrightarrow> (\<forall>x. current + 1 \<le> x \<and> x \<le> MAXORD \<longrightarrow> \<not> is_business_day self x)"
        using False by (metis add1_zle_eq order_le_less)
      then show ?thesis unfolding unf IH by blast
    next
      case gt: False
      have "add_days current 1 = Inl OverflowError"
        using gt by (simp add: add_days_1)
      then have "next_loop self current = Inl OverflowError"
        using False by (subst next_loop.simps) simp
      moreover have "\<not> is_business_day self x" if "current \<le> x" "x \<le> MAXORD" for x
        using gt False "1.prems" that by (cases "x = current") auto
      ultimately show ?thesis by auto
    qed
  qed
qed

lemma prev_loop_Inr_iff:
  "MINORD \<le> c \<Longrightarrow> c \<le> MAXORD \<Longrightarrow>
   prev_loop self c = Inr r \<longleftrightarrow>
     r \<le> c \<and> MINORD \<le> r \<and> is_business_day self r
     \<and> (\<forall>x. r < x \<and> x \<le> c \<longrightarrow> \<not> is_business_day self x)"
proof (induction self c rule: prev_loop.induct)
  case (1 self current)
  show ?case
  proof (cases "is_business_day self current")
    case True
    have "prev_loop self current = Inr current"
      using True by (subst prev_loop.simps) simp
    moreover have "r = current"
      if "r \<le> current" "\<forall>x. r < x \<and> x \<le> current \<longrightarrow> \<not> is_business_day self x"
      using that True by (cases "r < current") auto
    ultimately show ?thesis using True "1.prems" by auto
  next
    case False
    show ?thesis
    proof (cases "MINORD \<le> current - 1")
      case le: True
      have step: "add_days current (-1) = Inr (current - 1)"
        using le "1.prems" by (simp add: add_days_m1)
      have unf: "prev_loop self current = prev_loop self (current - 1)"
        using False step by (subst prev_loop.simps) simp
      have IH: "prev_loop self (current - 1) = Inr r \<longleftrightarrow>
          r \<le> current - 1 \<and> MINORD \<le> r \<and> is_business_day self r
          \<and> (\<forall>x. r < x \<and> x \<le> current - 1 \<longrightarrow> \<not> is_business_day self x)"
        using "1.IH" [OF False step] le "1.prems" by simp
      have "(\<forall>x. r < x \<and> x \<le> current \<longrightarrow> \<not> is_business_day self x)
            \<longleftrightarrow> (\<forall>x. r < x \<and> x \<le> current - 1 \<longrightarrow> \<not> is_business_day self x)"
        using False by (metis zle_diff1_eq order_le_less)
      moreover have "r \<le> current \<and> is_business_day self r
                     \<longleftrightarrow> r \<le> current - 1 \<and> is_business_day self r"
        using False by (metis zle_diff1_eq order_le_less)
      ultimately show ?thesis unfolding unf IH by blast
    next
      case gt: False
      have "add_days current (-1) = Inl OverflowError"
        using gt by (simp add: add_days_m1)
      then have "prev_loop self current = Inl OverflowError"
        using False by (subst prev_loop.simps) simp
      moreover have "\<not> (r \<le> current \<and> MINORD \<le> r \<and> is_business_day self r)"
        using gt False "1.prems" by (cases "r = current") auto
      ultimately show ?thesis by auto
    qed
  qed
qed

lemma prev_loop_Inl_iff:
  "MINORD \<le> c \<Longrightarrow> c \<le> MAXORD \<Longrightarrow>
   prev_loop self c = Inl e \<longleftrightarrow>
     e = OverflowError \<and> (\<forall>x. MINORD \<le> x \<and> x \<le> c \<longrightarrow> \<not> is_business_day self x)"
proof (induction self c rule: prev_loop.induct)
  case (1 self current)
  show ?case
  proof (cases "is_business_day self current")
    case True
    have "prev_loop self current = Inr current"
      using True by (subst prev_loop.simps) simp
    then show ?thesis using True "1.prems" by auto
  next
    case False
    show ?thesis
    proof (cases "MINORD \<le> current - 1")
      case le: True
      have step: "add_days current (-1) = Inr (current - 1)"
        using le "1.prems" by (simp add: add_days_m1)
      have unf: "prev_loop self current = prev_loop self (current - 1)"
        using False step by (subst prev_loop.simps) simp
      have IH: "prev_loop self (current - 1) = Inl e \<longleftrightarrow>
          e = OverflowError
          \<and> (\<forall>x. MINORD \<le> x \<and> x \<le> current - 1 \<longrightarrow> \<not> is_business_day self x)"
        using "1.IH" [OF False step] le "1.prems" by simp
      have "(\<forall>x. MINORD \<le> x \<and> x \<le> current \<longrightarrow> \<not> is_business_day self x)
            \<longleftrightarrow> (\<forall>x. MINORD \<le> x \<and> x \<le> current - 1 \<longrightarrow> \<not> is_business_day self x)"
        using False by (metis zle_diff1_eq order_le_less)
      then show ?thesis unfolding unf IH by blast
    next
      case gt: False
      have "add_days current (-1) = Inl OverflowError"
        using gt by (simp add: add_days_m1)
      then have "prev_loop self current = Inl OverflowError"
        using False by (subst prev_loop.simps) simp
      moreover have "\<not> is_business_day self x" if "MINORD \<le> x" "x \<le> current" for x
        using gt False "1.prems" that by (cases "x = current") auto
      ultimately show ?thesis by auto
    qed
  qed
qed

lemma filter_upto_step:
  "c < r \<Longrightarrow> length (filter P [c + 1..r]) = (if P (c + 1) then 1 else 0) + length (filter P [c + 1 + 1..r])"
  by (subst upto_rec1) auto

lemma add_loop_fwd_Inr_iff:
  "0 < days \<Longrightarrow> added \<le> days \<Longrightarrow> MINORD \<le> c \<Longrightarrow> c \<le> MAXORD \<Longrightarrow>
   add_loop self days c added = Inr r \<longleftrightarrow>
     (if added = days then r = c
      else c < r \<and> r \<le> MAXORD \<and> is_business_day self r
           \<and> int (length (filter (is_business_day self) [c + 1..r])) = days - added)"
proof (induction self days c added rule: add_loop.induct)
  case (1 self days current added)
  show ?case
  proof (cases "added = days")
    case True
    then show ?thesis using "1.prems" by (subst add_loop.simps) auto
  next
    case ne: False
    then have lt: "added < \<bar>days\<bar>" using "1.prems" by simp
    have dir: "direction days = 1" using "1.prems" by (simp add: direction_def)
    show ?thesis
    proof (cases "current + 1 \<le> MAXORD")
      case le: True
      let ?c = "current + 1"
      let ?a = "if is_business_day self ?c then added + 1 else added"
      have step: "add_days current (direction days) = Inr ?c"
        using le "1.prems" dir by (simp add: add_days_1)
      have unf: "add_loop self days current added = add_loop self days ?c ?a"
        using lt step by (subst add_loop.simps) simp
      have IH: "add_loop self days ?c ?a = Inr r \<longleftrightarrow>
         (if ?a = days then r = ?c
          else ?c < r \<and> r \<le> MAXORD \<and> is_business_day self r
            \<and> int (length (filter (is_business_day self) [?c + 1..r])) = days - ?a)"
        using "1.IH" [OF lt step] le "1.prems" ne by simp
      show ?thesis
      proof (cases "r \<le> current")
        case True
        then show ?thesis unfolding unf IH using ne by auto
      next
        case False
        then have cr: "current < r" by simp
        note fs = filter_upto_step [OF cr, of "is_business_day self"]
        show ?thesis
        proof (cases "r = ?c")
          case True
          then show ?thesis unfolding unf IH using ne le by auto
        next
          case False
          then have "?c < r" using cr by simp
          then have pos: "is_business_day self r \<Longrightarrow>
              0 < length (filter (is_business_day self) [?c + 1..r])"
            by (auto simp: filter_empty_conv length_greater_0_conv)
          show ?thesis unfolding unf IH using ne cr False \<open>?c < r\<close> fs pos by auto
        qed
      qed
    next
      case gt: False
      have "add_days current (direction days) = Inl OverflowError"
        using gt dir by (simp add: add_days_1)
      then have "add_loop self days current added = Inl OverflowError"
        using lt by (subst add_loop.simps) simp
      then show ?thesis using gt ne by auto
    qed
  qed
qed

lemma filter_upto_step_back:
  "r < c \<Longrightarrow> length (filter P [r..c - 1]) = length (filter P [r..c - 1 - 1]) + (if P (c - 1) then 1 else 0)"
  by (subst upto_rec2) auto

lemma add_loop_bwd_Inr_iff:
  "days < 0 \<Longrightarrow> added \<le> - days \<Longrightarrow> MINORD \<le> c \<Longrightarrow> c \<le> MAXORD \<Longrightarrow>
   add_loop self days c added = Inr r \<longleftrightarrow>
     (if added = - days then r = c
      else r < c \<and> MINORD \<le> r \<and> is_business_day self r
           \<and> int (length (filter (is_business_day self) [r..c - 1])) = - days - added)"
proof (induction self days c added rule: add_loop.induct)
  case (1 self days current added)
  show ?case
  proof (cases "added = - days")
    case True
    then show ?thesis using "1.prems" by (subst add_loop.simps) auto
  next
    case ne: False
    then have lt: "added < \<bar>days\<bar>" using "1.prems" by simp
    have dir: "direction days = -1" using "1.prems" by (simp add: direction_def)
    show ?thesis
    proof (cases "MINORD \<le> current - 1")
      case le: True
      let ?c = "current - 1"
      let ?a = "if is_business_day self ?c then added + 1 else added"
      have step: "add_days current (direction days) = Inr ?c"
        using le "1.prems" dir by (simp add: add_days_m1)
      have unf: "add_loop self days current added = add_loop self days ?c ?a"
        using lt step by (subst add_loop.simps) simp
      have IH: "add_loop self days ?c ?a = Inr r \<longleftrightarrow>
         (if ?a = - days then r = ?c
          else r < ?c \<and> MINORD \<le> r \<and> is_business_day self r
            \<and> int (length (filter (is_business_day self) [r..?c - 1])) = - days - ?a)"
        using "1.IH" [OF lt step] le "1.prems" ne by simp
      show ?thesis
      proof (cases "current \<le> r")
        case True
        then show ?thesis unfolding unf IH using ne by auto
      next
        case False
        then have cr: "r < current" by simp
        note fs = filter_upto_step_back [OF cr, of "is_business_day self"]
        show ?thesis
        proof (cases "r = ?c")
          case True
          then show ?thesis unfolding unf IH using ne le by auto
        next
          case False
          then have rc: "r < ?c" using cr by simp
          then have "is_business_day self r \<Longrightarrow>
              filter (is_business_day self) [r..?c - 1] \<noteq> []"
            by (auto simp: filter_empty_conv)
          then have pos: "is_business_day self r \<Longrightarrow>
              1 \<le> int (length (filter (is_business_day self) [r..?c - 1]))"
            by (cases "filter (is_business_day self) [r..?c - 1]") auto
          show ?thesis unfolding unf IH using ne cr False rc fs pos
            by (auto simp del: length_greater_0_conv)
        qed
      qed
    next
      case gt: False
      have "add_days current (direction days) = Inl OverflowError"
        using gt dir by (simp add: add_days_m1)
      then have "add_loop self days current added = Inl OverflowError"
        using lt by (subst add_loop.simps) simp
      then show ?thesis using gt ne "1.prems" by auto
    qed
  qed
qed

lemma add_loop_fwd_Inl_iff:
  "0 < days \<Longrightarrow> added \<le> days \<Longrightarrow> MINORD \<le> c \<Longrightarrow> c \<le> MAXORD \<Longrightarrow>
   add_loop self days c added = Inl e \<longleftrightarrow>
     e = OverflowError
     \<and> int (length (filter (is_business_day self) [c + 1..MAXORD])) < days - added"
proof (induction self days c added rule: add_loop.induct)
  case (1 self days current added)
  show ?case
  proof (cases "added = days")
    case True
    then show ?thesis using "1.prems" by (subst add_loop.simps) auto
  next
    case ne: False
    then have lt: "added < \<bar>days\<bar>" using "1.prems" by simp
    have dir: "direction days = 1" using "1.prems" by (simp add: direction_def)
    show ?thesis
    proof (cases "current + 1 \<le> MAXORD")
      case le: True
      let ?c = "current + 1"
      let ?a = "if is_business_day self ?c then added + 1 else added"
      have step: "add_days current (direction days) = Inr ?c"
        using le "1.prems" dir by (simp add: add_days_1)
      have unf: "add_loop self days current added = add_loop self days ?c ?a"
        using lt step by (subst add_loop.simps) simp
      have IH: "add_loop self days ?c ?a = Inl e \<longleftrightarrow>
         e = OverflowError
         \<and> int (length (filter (is_business_day self) [?c + 1..MAXORD])) < days - ?a"
        using "1.IH" [OF lt step] le "1.prems" ne by simp
      have "current < MAXORD" using le by simp
      note fs = filter_upto_step [OF this, of "is_business_day self"]
      show ?thesis unfolding unf IH using fs by auto
    next
      case gt: False
      have "add_days current (direction days) = Inl OverflowError"
        using gt dir by (simp add: add_days_1)
      then have "add_loop self days current added = Inl OverflowError"
        using lt by (subst add_loop.simps) simp
      then show ?thesis using gt ne "1.prems" by auto
    qed
  qed
qed

lemma add_loop_bwd_Inl_iff:
  "days < 0 \<Longrightarrow> added \<le> - days \<Longrightarrow> MINORD \<le> c \<Longrightarrow> c \<le> MAXORD \<Longrightarrow>
   add_loop self days c added = Inl e \<longleftrightarrow>
     e = OverflowError
     \<and> int (length (filter (is_business_day self) [MINORD..c - 1])) < - days - added"
proof (induction self days c added rule: add_loop.induct)
  case (1 self days current added)
  show ?case
  proof (cases "added = - days")
    case True
    then show ?thesis using "1.prems" by (subst add_loop.simps) auto
  next
    case ne: False
    then have lt: "added < \<bar>days\<bar>" using "1.prems" by simp
    have dir: "direction days = -1" using "1.prems" by (simp add: direction_def)
    show ?thesis
    proof (cases "MINORD \<le> current - 1")
      case le: True
      let ?c = "current - 1"
      let ?a = "if is_business_day self ?c then added + 1 else added"
      have step: "add_days current (direction days) = Inr ?c"
        using le "1.prems" dir by (simp add: add_days_m1)
      have unf: "add_loop self days current added = add_loop self days ?c ?a"
        using lt step by (subst add_loop.simps) simp
      have IH: "add_loop self days ?c ?a = Inl e \<longleftrightarrow>
         e = OverflowError
         \<and> int (length (filter (is_business_day self) [MINORD..?c - 1])) < - days - ?a"
        using "1.IH" [OF lt step] le "1.prems" ne by simp
      have "MINORD < current" using le by simp
      note fs = filter_upto_step_back [OF this, of "is_business_day self"]
      show ?thesis unfolding unf IH using fs by auto
    next
      case gt: False
      have "add_days current (direction days) = Inl OverflowError"
        using gt dir by (simp add: add_days_m1)
      then have "add_loop self days current added = Inl OverflowError"
        using lt by (subst add_loop.simps) simp
      then show ?thesis using gt ne "1.prems" by auto
    qed
  qed
qed

lemma filter_upto_empty_iff:
  "filter P [a..b] = [] \<longleftrightarrow> (\<forall>x. a \<le> x \<and> x \<le> b \<longrightarrow> \<not> P x)"
  by (auto simp: filter_empty_conv)

lemma get_next_Inr_iff:
  assumes "valid_date d"
  shows "get_next_business_day self d = Inr r \<longleftrightarrow>
     d < r \<and> r \<le> MAXORD \<and> is_business_day self r
     \<and> (\<forall>x. d < x \<and> x < r \<longrightarrow> \<not> is_business_day self x)"
proof (cases "d + 1 \<le> MAXORD")
  case True
  then have step: "add_days d 1 = Inr (d + 1)"
    using assms by (simp add: add_days_1 valid_date_def)
  have "MINORD \<le> d + 1" using assms by (simp add: valid_date_def)
  from next_loop_Inr_iff [OF this True, of self r] show ?thesis
    by (simp add: get_next_business_day_def step add1_zle_eq)
next
  case False
  then have "add_days d 1 = Inl OverflowError" by (simp add: add_days_1)
  then show ?thesis using False by (auto simp: get_next_business_day_def)
qed

lemma get_next_Inl_iff:
  assumes "valid_date d"
  shows "get_next_business_day self d = Inl e \<longleftrightarrow>
     e = OverflowError \<and> (\<forall>x. d < x \<and> x \<le> MAXORD \<longrightarrow> \<not> is_business_day self x)"
proof (cases "d + 1 \<le> MAXORD")
  case True
  then have step: "add_days d 1 = Inr (d + 1)"
    using assms by (simp add: add_days_1 valid_date_def)
  have "MINORD \<le> d + 1" using assms by (simp add: valid_date_def)
  from next_loop_Inl_iff [OF this True, of self e] show ?thesis
    by (simp add: get_next_business_day_def step add1_zle_eq)
next
  case False
  then have "add_days d 1 = Inl OverflowError" by (simp add: add_days_1)
  then show ?thesis using False by (auto simp: get_next_business_day_def)
qed

lemma get_previous_Inr_iff:
  assumes "valid_date d"
  shows "get_previous_business_day self d = Inr r \<longleftrightarrow>
     r < d \<and> MINORD \<le> r \<and> is_business_day self r
     \<and> (\<forall>x. r < x \<and> x < d \<longrightarrow> \<not> is_business_day self x)"
proof (cases "MINORD \<le> d - 1")
  case True
  then have step: "add_days d (-1) = Inr (d - 1)"
    using assms by (simp add: add_days_m1 valid_date_def)
  have "d - 1 \<le> MAXORD" using assms by (simp add: valid_date_def)
  from prev_loop_Inr_iff [OF True this, of self r] show ?thesis
    by (simp add: get_previous_business_day_def step zle_diff1_eq)
next
  case False
  then have "add_days d (-1) = Inl OverflowError" by (simp add: add_days_m1)
  then show ?thesis using False by (auto simp: get_previous_business_day_def)
qed

lemma get_previous_Inl_iff:
  assumes "valid_date d"
  shows "get_previous_business_day self d = Inl e \<longleftrightarrow>
     e = OverflowError \<and> (\<forall>x. MINORD \<le> x \<and> x < d \<longrightarrow> \<not> is_business_day self x)"
proof (cases "MINORD \<le> d - 1")
  case True
  then have step: "add_days d (-1) = Inr (d - 1)"
    using assms by (simp add: add_days_m1 valid_date_def)
  have "d - 1 \<le> MAXORD" using assms by (simp add: valid_date_def)
  from prev_loop_Inl_iff [OF True this, of self e] show ?thesis
    by (simp add: get_previous_business_day_def step zle_diff1_eq)
next
  case False
  then have "add_days d (-1) = Inl OverflowError" by (simp add: add_days_m1)
  then show ?thesis using False by (auto simp: get_previous_business_day_def)
qed

lemma add_business_days_fwd_Inr_iff:
  assumes "valid_date d" "0 < n"
  shows "add_business_days self d n = Inr r \<longleftrightarrow>
     d < r \<and> r \<le> MAXORD \<and> is_business_day self r
     \<and> int (length (filter (is_business_day self) [d + 1..r])) = n"
  using add_loop_fwd_Inr_iff [of n 0 d self r] assms
  by (simp add: add_business_days_def valid_date_def)

lemma add_business_days_bwd_Inr_iff:
  assumes "valid_date d" "n < 0"
  shows "add_business_days self d n = Inr r \<longleftrightarrow>
     r < d \<and> MINORD \<le> r \<and> is_business_day self r
     \<and> int (length (filter (is_business_day self) [r..d - 1])) = - n"
  using add_loop_bwd_Inr_iff [of n 0 d self r] assms
  by (simp add: add_business_days_def valid_date_def)

lemma add_business_days_fwd_Inl_iff:
  assumes "valid_date d" "0 < n"
  shows "add_business_days self d n = Inl e \<longleftrightarrow>
     e = OverflowError
     \<and> int (length (filter (is_business_day self) [d + 1..MAXORD])) < n"
  using add_loop_fwd_Inl_iff [of n 0 d self e] assms
  by (simp add: add_business_days_def valid_date_def)

lemma add_business_days_bwd_Inl_iff:
  assumes "valid_date d" "n < 0"
  shows "add_business_days self d n = Inl e \<longleftrightarrow>
     e = OverflowError
     \<and> int (length (filter (is_business_day self) [MINORD..d - 1])) < - n"
  using add_loop_bwd_Inl_iff [of n 0 d self e] assms
  by (simp add: add_business_days_def valid_date_def)

lemma filter_upto_shift:
  assumes "d < r" "P d" "P r"
  shows "length (filter P [d..r - 1]) = length (filter P [d + 1..r])"
proof -
  have "length (filter P [d..r]) = Suc (length (filter P [d + 1..r]))"
    using assms by (subst upto_rec1) auto
  moreover have "length (filter P [d..r]) = Suc (length (filter P [d..r - 1]))"
    using assms by (subst upto_rec2) auto
  ultimately show ?thesis by simp
qed

lemma add_business_days_back:
  assumes "valid_date d" "is_business_day self d" "add_business_days self d n = Inr r"
  shows "add_business_days self r (- n) = Inr d"
proof -
  consider "n = 0" | "0 < n" | "n < 0" by linarith
  then show ?thesis
  proof cases
    case 1
    then show ?thesis using assms by (simp add: add_business_days_def)
  next
    case 2
    from assms(3) add_business_days_fwd_Inr_iff [OF assms(1) 2, of self r]
    have r: "d < r" "r \<le> MAXORD" "is_business_day self r"
      "int (length (filter (is_business_day self) [d + 1..r])) = n" by auto
    have vr: "valid_date r" using r assms(1) by (simp add: valid_date_def)
    have "- n < 0" using 2 by simp
    from add_business_days_bwd_Inr_iff [OF vr this, of self d]
      filter_upto_shift [OF r(1) assms(2) r(3)] r assms(1,2)
    show ?thesis by (simp add: valid_date_def)
  next
    case 3
    from assms(3) add_business_days_bwd_Inr_iff [OF assms(1) 3, of self r]
    have r: "r < d" "MINORD \<le> r" "is_business_day self r"
      "int (length (filter (is_business_day self) [r..d - 1])) = - n" by auto
    have vr: "valid_date r" using r assms(1) by (simp add: valid_date_def)
    have "0 < - n" using 3 by simp
    from add_business_days_fwd_Inr_iff [OF vr this, of self d]
      filter_upto_shift [OF r(1) r(3) assms(2)] r assms(1,2)
    show ?thesis by (simp add: valid_date_def)
  qed
qed

section \<open>Some days of the calendar\<close>

lemma valid_dates:
  "valid_date 738883" "valid_date 738887" "valid_date 738888" "valid_date 738893"
  "valid_date 3652057" "valid_date 3652059" "valid_date 1" "valid_date 3"
  by (simp_all add: valid_date_def MINORD_def MAXORD_def)

lemma is_business_day_no_holidays:
  "is_business_day no_holidays d \<longleftrightarrow> weekday d \<noteq> 5 \<and> weekday d \<noteq> 6"
  by (simp add: is_business_day_def no_holidays_def init_calculator_def is_weekend_def)

lemma new_year_days:
  "is_business_day (init_calculator [new_year_2024 ''2024-01-01'']) 738887"
  "is_business_day (init_calculator [new_year_2024 ''2024-01-01'']) 738883"
  by code_simp+

lemma upto_1_2: "[1..2] = [1, 2::int]"
  by (simp add: upto_rec1)

lemma last_days:
  "filter (is_business_day no_holidays) [3652058..MAXORD] = [3652058, 3652059]"
  "filter (is_business_day no_holidays) [MINORD..2] = [1, 2]"
  by (simp_all add: MAXORD_def MINORD_def upto_1_2 is_business_day_no_holidays weekday_def)

lemma weekend_trip:
  "add_business_days no_holidays 738891 1 = Inr 738893"
  "add_business_days no_holidays 738893 (- 1) = Inr 738890"
  by code_simp+

lemma new_year_trip:
  "add_business_days (init_calculator [new_year_2024 ''2024-01-01'']) 738883 2 = Inr 738888"
  by code_simp

section \<open>The next and the previous business day\<close>

text \<open>
  C5 (as amended): from a date \<open>d\<close>, when some business day lies strictly after
  \<open>d\<close> and not after 9999-12-31, \<open>get_next_business_day\<close> returns the smallest
  business day strictly after \<open>d\<close> (never \<open>d\<close> itself, and past any run of days
  that are not business days); when some business day lies strictly before \<open>d\<close> and not
  before 0001-01-01, \<open>get_previous_business_day\<close> returns the largest business day
  strictly before \<open>d\<close>. When there is no such day, the step past the last (first) date
  raises \<open>OverflowError\<close>.
\<close>

theorem next_previous_business_day_spec:
  assumes "valid_date d"
  shows "(\<forall>b. d < b \<and> b \<le> MAXORD \<and> is_business_day self b \<longrightarrow>
            (\<exists>r. get_next_business_day self d = Inr r \<and> d < r \<and> r \<le> b
                 \<and> is_business_day self r
                 \<and> (\<forall>x. d < x \<and> x < r \<longrightarrow> \<not> is_business_day self x)))
       \<and> (\<forall>b. MINORD \<le> b \<and> b < d \<and> is_business_day self b \<longrightarrow>
            (\<exists>r. get_previous_business_day self d = Inr r \<and> b \<le> r \<and> r < d
                 \<and> is_business_day self r
                 \<and> (\<forall>x. r < x \<and> x < d \<longrightarrow> \<not> is_business_day self x)))
       \<and> ((\<forall>b. d < b \<and> b \<le> MAXORD \<longrightarrow> \<not> is_business_day self b) \<longrightarrow>
            get_next_business_day self d = Inl OverflowError)
       \<and> ((\<forall>b. MINORD \<le> b \<and> b < d \<longrightarrow> \<not> is_business_day self b) \<longrightarrow>
            get_previous_business_day self d = Inl OverflowError)"
proof (intro conjI allI impI)
  fix b assume b: "d < b \<and> b \<le> MAXORD \<and> is_business_day self b"
  show "\<exists>r. get_next_business_day self d = Inr r \<and> d < r \<and> r \<le> b
           \<and> is_business_day self r
           \<and> (\<forall>x. d < x \<and> x < r \<longrightarrow> \<not> is_business_day self x)"
  proof (cases "get_next_business_day self d")
    case (Inl e)
    then show ?thesis using get_next_Inl_iff [OF assms, of self e] b by blast
  next
    case (Inr r)
    then have r: "d < r" "r \<le> MAXORD" "is_business_day self r"
      "\<forall>x. d < x \<and> x < r \<longrightarrow> \<not> is_business_day self x"
      using get_next_Inr_iff [OF assms, of self r] by auto
    have "r \<le> b" using r(4) b by (meson not_le)
    then show ?thesis using Inr r by blast
  qed
next
  fix b assume b: "MINORD \<le> b \<and> b < d \<and> is_business_day self b"
  show "\<exists>r. get_previous_business_day self d = Inr r \<and> b \<le> r \<and> r < d
           \<and> is_business_day self r
           \<and> (\<forall>x. r < x \<and> x < d \<longrightarrow> \<not> is_business_day self x)"
  proof (cases "get_previous_business_day self d")
    case (Inl e)
    then show ?thesis using get_previous_Inl_iff [OF assms, of self e] b by blast
  next
    case (Inr r)
    then have r: "r < d" "MINORD \<le> r" "is_business_day self r"
      "\<forall>x. r < x \<and> x < d \<longrightarrow> \<not> is_business_day self x"
      using get_previous_Inr_iff [OF assms, of self r] by auto
    have "b \<le> r" using r(4) b by (meson not_le)
    then show ?thesis using Inr r by blast
  qed
next
  assume "\<forall>b. d < b \<and> b \<le> MAXORD \<longrightarrow> \<not> is_business_day self b"
  then show "get_next_business_day self d = Inl OverflowError"
    using get_next_Inl_iff [OF assms, of self OverflowError] by blast
next
  assume "\<forall>b. MINORD \<le> b \<and> b < d \<longrightarrow> \<not> is_business_day self b"
  then show "get_previous_business_day self d = Inl OverflowError"
    using get_previous_Inl_iff [OF assms, of self OverflowError] by blast
qed

text \<open>
  With New Year's Day 2024 a holiday: after Friday 2023-12-29 the next business day is
  found not later than Tuesday 2024-01-02, and before that Tuesday the previous one
  not earlier than that Friday. After 9999-12-31 there is none.
\<close>

theorem next_previous_business_day_spec_witness:
  "valid_date 738883 \<and> valid_date 738887
   \<and> is_business_day (init_calculator [new_year_2024 ''2024-01-01'']) 738887
   \<and> is_business_day (init_calculator [new_year_2024 ''2024-01-01'']) 738883
   \<and> (\<exists>r. get_next_business_day (init_calculator [new_year_2024 ''2024-01-01'']) 738883
             = Inr r \<and> 738883 < r \<and> r \<le> 738887)
   \<and> (\<exists>r. get_previous_business_day (init_calculator [new_year_2024 ''2024-01-01''])
             738887 = Inr r \<and> 738883 \<le> r \<and> r < 738887)
   \<and> get_next_business_day no_holidays 3652059 = Inl OverflowError"
proof -
  let ?c = "init_calculator [new_year_2024 ''2024-01-01'']"
  have a: "738883 < (738887::int) \<and> 738887 \<le> MAXORD \<and> is_business_day ?c 738887"
    by (simp add: new_year_days MAXORD_def)
  have b: "MINORD \<le> 738883 \<and> 738883 < (738887::int) \<and> is_business_day ?c 738883"
    by (simp add: new_year_days MINORD_def)
  have c: "\<forall>b. 3652059 < b \<and> b \<le> MAXORD \<longrightarrow> \<not> is_business_day no_holidays b"
    by (auto simp: MAXORD_def)
  from next_previous_business_day_spec [OF valid_dates(1), of ?c] a
  have 1: "\<exists>r. get_next_business_day ?c 738883 = Inr r \<and> 738883 < r \<and> r \<le> 738887"
    by blast
  from next_previous_business_day_spec [OF valid_dates(2), of ?c] b
  have 2: "\<exists>r. get_previous_business_day ?c 738887 = Inr r \<and> 738883 \<le> r \<and> r < 738887"
    by blast
  from next_previous_business_day_spec [OF valid_dates(6), of no_holidays] c
  have 3: "get_next_business_day no_holidays 3652059 = Inl OverflowError"
    by blast
  show ?thesis using 1 2 3 valid_dates new_year_days by blast
qed

text \<open>
  The claim C5 as stated fails at the last date: \<open>get_next_business_day\<close> of
  9999-12-31 returns no date, it raises \<open>OverflowError\<close>.
\<close>

theorem get_next_business_day_at_date_max:
  "get_next_business_day no_holidays 3652059 = Inl OverflowError"
  by (simp add: get_next_business_day_def add_days_def MINORD_def MAXORD_def)

section \<open>Termination of the stepping loops\<close>

text \<open>
  C10 (as amended): the three stepping loops end for every date and every set of
  holidays (the functions above are total), with a date or with \<open>OverflowError\<close>.
  \<open>get_next_business_day\<close> returns a date exactly when a business day lies after
  \<open>d\<close> up to 9999-12-31, \<open>get_previous_business_day\<close> exactly when one lies before
  \<open>d\<close> down to 0001-01-01, and \<open>add_business_days\<close> exactly when at least
  \<open>\<bar>n\<bar>\<close> business days lie on the side it steps to; otherwise the result is
  \<open>OverflowError\<close>.
\<close>

theorem stepping_terminates:
  assumes "valid_date d"
  shows "((\<exists>r. get_next_business_day self d = Inr r) \<longleftrightarrow>
            filter (is_business_day self) [d + 1..MAXORD] \<noteq> [])
       \<and> (get_next_business_day self d = Inl OverflowError \<longleftrightarrow>
            filter (is_business_day self) [d + 1..MAXORD] = [])
       \<and> ((\<exists>r. get_previous_business_day self d = Inr r) \<longleftrightarrow>
            filter (is_business_day self) [MINORD..d - 1] \<noteq> [])
       \<and> (get_previous_business_day self d = Inl OverflowError \<longleftrightarrow>
            filter (is_business_day self) [MINORD..d - 1] = [])
       \<and> (0 < n \<longrightarrow>
            ((\<exists>r. add_business_days self d n = Inr r) \<longleftrightarrow>
               n \<le> int (length (filter (is_business_day self) [d + 1..MAXORD])))
            \<and> (add_business_days self d n = Inl OverflowError \<longleftrightarrow>
               int (length (filter (is_business_day self) [d + 1..MAXORD])) < n))
       \<and> (n < 0 \<longrightarrow>
            ((\<exists>r. add_business_days self d n = Inr r) \<longleftrightarrow>
               - n \<le> int (length (filter (is_business_day self) [MINORD..d - 1])))
            \<and> (add_business_days self d n = Inl OverflowError \<longleftrightarrow>
               int (length (filter (is_business_day self) [MINORD..d - 1])) < - n))"
proof -
  have sum_cases: "(\<exists>r. v = Inr r) \<longleftrightarrow> \<not> (\<exists>e. v = Inl e)" for v :: "error + date"
    by (cases v) auto
  have nxt: "get_next_business_day self d = Inl e \<longleftrightarrow>
      e = OverflowError \<and> filter (is_business_day self) [d + 1..MAXORD] = []" for e
    using get_next_Inl_iff [OF assms, of self e]
    by (simp add: filter_upto_empty_iff add1_zle_eq)
  have prv: "get_previous_business_day self d = Inl e \<longleftrightarrow>
      e = OverflowError \<and> filter (is_business_day self) [MINORD..d - 1] = []" for e
    using get_previous_Inl_iff [OF assms, of self e]
    by (simp add: filter_upto_empty_iff zle_diff1_eq)
  have fwd: "add_business_days self d n = Inl e \<longleftrightarrow>
      e = OverflowError
      \<and> int (length (filter (is_business_day self) [d + 1..MAXORD])) < n" if "0 < n" for e
    using add_business_days_fwd_Inl_iff [OF assms that] .
  have bwd: "add_business_days self d n = Inl e \<longleftrightarrow>
      e = OverflowError
      \<and> int (length (filter (is_business_day self) [MINORD..d - 1])) < - n" if "n < 0" for e
    using add_business_days_bwd_Inl_iff [OF assms that] .
  show ?thesis
    unfolding sum_cases using nxt prv fwd bwd by (auto simp: not_less)
qed

text \<open>
  Without holidays: after Wednesday 9999-12-29 two business days are left, so two can
  be added and three cannot; before Wednesday 0001-01-03 there are two.
\<close>

theorem stepping_terminates_witness:
  "valid_date 3652057 \<and> valid_date 3
   \<and> (\<exists>r. get_next_business_day no_holidays 3652057 = Inr r)
   \<and> (\<exists>r. get_previous_business_day no_holidays 3 = Inr r)
   \<and> (\<exists>r. add_business_days no_holidays 3652057 2 = Inr r)
   \<and> add_business_days no_holidays 3652057 3 = Inl OverflowError
   \<and> (\<exists>r. add_business_days no_holidays 3 (- 2) = Inr r)
   \<and> add_business_days no_holidays 3 (- 3) = Inl OverflowError"
  using stepping_terminates [OF valid_dates(5), of no_holidays 2]
    stepping_terminates [OF valid_dates(5), of no_holidays 3]
    stepping_terminates [OF valid_dates(8), of no_holidays "- 2"]
    stepping_terminates [OF valid_dates(8), of no_holidays "- 3"]
  by (simp add: last_days valid_dates)

text \<open>
  The claim C10 as stated fails at the first date: no business day is reached before
  0001-01-01, and \<open>get_previous_business_day\<close> raises \<open>OverflowError\<close>.
\<close>

theorem get_previous_business_day_at_date_min:
  "get_previous_business_day no_holidays 1 = Inl OverflowError"
  by (simp add: get_previous_business_day_def add_days_def MINORD_def MAXORD_def)

section \<open>Adding business days\<close>

text \<open>
  C8 (as amended): when \<open>d\<close> is a business day and \<open>add_business_days\<close> from \<open>d\<close>
  by \<open>n\<close> returns a date \<open>r\<close>, then \<open>add_business_days\<close> from \<open>r\<close> by \<open>- n\<close>
  returns \<open>d\<close>. From a day that is not a business day the way back can end
  elsewhere: without holidays, one business day after Saturday 2024-01-06 is Monday
  2024-01-08, and one business day before that Monday is Friday 2024-01-05.
\<close>

theorem add_business_days_round_trip:
  "(valid_date d \<and> is_business_day self d \<and> add_business_days self d n = Inr r \<longrightarrow>
      add_business_days self r (- n) = Inr d)
   \<and> \<not> is_business_day no_holidays 738891
   \<and> add_business_days no_holidays 738891 1 = Inr 738893
   \<and> add_business_days no_holidays 738893 (- 1) = Inr 738890"
  using add_business_days_back [of d self n r]
  by (simp add: weekend_trip is_business_day_no_holidays weekday_def)

text \<open>
  With New Year's Day 2024 a holiday: two business days after Friday 2023-12-29 is
  Wednesday 2024-01-03, and two business days before that Wednesday is the Friday.
\<close>

theorem add_business_days_round_trip_witness:
  "valid_date 738883
   \<and> is_business_day (init_calculator [new_year_2024 ''2024-01-01'']) 738883
   \<and> add_business_days (init_calculator [new_year_2024 ''2024-01-01'']) 738883 2 = Inr 738888
   \<and> add_business_days (init_calculator [new_year_2024 ''2024-01-01'']) 738888 (- 2)
       = Inr 738883"
  using add_business_days_round_trip
    [of 738883 "init_calculator [new_year_2024 ''2024-01-01'']" 2 738888]
  by (simp add: valid_dates new_year_days new_year_trip)

text \<open>
  The claim C8 as stated fails at the last date: 9999-12-31 is a business day when
  there are no holidays, and adding one business day to it raises \<open>OverflowError\<close>,
  so the way there and back does not return 9999-12-31.
\<close>

theorem add_business_days_at_date_max:
  "is_business_day no_holidays 3652059
   \<and> add_business_days no_holidays 3652059 1 = Inl OverflowError"
  using add_business_days_fwd_Inl_iff [OF valid_dates(6), of 1 no_holidays OverflowError]
  by (simp add: is_business_day_no_holidays weekday_def MAXORD_def)

text \<open>
  C9: \<open>add_business_days\<close> with 0 days returns the starting date, whatever the date
  and the holidays.
\<close>

theorem add_business_days_zero: "add_business_days self d 0 = Inr d"
  by (simp add: add_business_days_def)

section \<open>Counting over a range\<close>

lemma count_loop_eq:
  "MINORD \<le> c \<Longrightarrow> to_date < MAXORD \<Longrightarrow>
   count_loop self to_date c count =
     Inr (count + int (length (filter (is_business_day self) [c..to_date])))"
proof (induction self to_date c count rule: count_loop.induct)
  case (1 self to_date current count)
  show ?case
  proof (cases "current \<le> to_date")
    case True
    then have step: "add_days current 1 = Inr (current + 1)"
      using "1.prems" by (simp add: add_days_1)
    have IH: "count_loop self to_date (current + 1) k =
        Inr (k + int (length (filter (is_business_day self) [current + 1..to_date])))"
      if "k = (if is_business_day self current then count + 1 else count)" for k
      using "1.IH" [OF True that step] "1.prems" by simp
    have unf: "count_loop self to_date current count =
        count_loop self to_date (current + 1) (if is_business_day self current then count + 1 else count)"
      using True step by (subst count_loop.simps) (simp add: Let_def)
    have up: "[current..to_date] = current # [current + 1..to_date]"
      using True by (rule upto_rec1)
    show ?thesis unfolding unf up by (simp add: IH)
  next
    case False
    then show ?thesis by (subst count_loop.simps) simp
  qed
qed

lemma range_loop_eq:
  "MINORD \<le> c \<Longrightarrow> to_date < MAXORD \<Longrightarrow>
   range_loop self to_date c bds =
     Inr (bds @ filter (is_business_day self) [c..to_date])"
proof (induction self to_date c bds rule: range_loop.induct)
  case (1 self to_date current bds)
  show ?case
  proof (cases "current \<le> to_date")
    case True
    then have step: "add_days current 1 = Inr (current + 1)"
      using "1.prems" by (simp add: add_days_1)
    have IH: "range_loop self to_date (current + 1) k =
        Inr (k @ filter (is_business_day self) [current + 1..to_date])"
      if "k = (if is_business_day self current then bds @ [current] else bds)" for k
      using "1.IH" [OF True that step] "1.prems" by simp
    have unf: "range_loop self to_date current bds =
        range_loop self to_date (current + 1) (if is_business_day self current then bds @ [current] else bds)"
      using True step by (subst range_loop.simps) (simp add: Let_def)
    have up: "[current..to_date] = current # [current + 1..to_date]"
      using True by (rule upto_rec1)
    show ?thesis unfolding unf up by (simp add: IH)
  next
    case False
    then show ?thesis by (subst range_loop.simps) simp
  qed
qed

lemma count_loop_overflow:
  "MINORD \<le> c \<Longrightarrow> c \<le> MAXORD \<Longrightarrow> MAXORD \<le> to_date \<Longrightarrow>
   count_loop self to_date c count = Inl OverflowError"
proof (induction self to_date c count rule: count_loop.induct)
  case (1 self to_date current count)
  have le: "current \<le> to_date" using "1.prems" by simp
  show ?case
  proof (cases "current + 1 \<le> MAXORD")
    case True
    then have step: "add_days current 1 = Inr (current + 1)"
      using "1.prems" by (simp add: add_days_1)
    have "count_loop self to_date (current + 1) k = Inl OverflowError"
      if "k = (if is_business_day self current then count + 1 else count)" for k
      using "1.IH" [OF le that step] "1.prems" True by simp
    then show ?thesis using le step by (subst count_loop.simps) (simp add: Let_def)
  next
    case False
    then have "add_days current 1 = Inl OverflowError" by (simp add: add_days_1)
    then show ?thesis using le by (subst count_loop.simps) (simp add: Let_def)
  qed
qed

lemma range_loop_overflow:
  "MINORD \<le> c \<Longrightarrow> c \<le> MAXORD \<Longrightarrow> MAXORD \<le> to_date \<Longrightarrow>
   range_loop self to_date c bds = Inl OverflowError"
proof (induction self to_date c bds rule: range_loop.induct)
  case (1 self to_date current bds)
  have le: "current \<le> to_date" using "1.prems" by simp
  show ?case
  proof (cases "current + 1 \<le> MAXORD")
    case True
    then have step: "add_days current 1 = Inr (current + 1)"
      using "1.prems" by (simp add: add_days_1)
    have "range_loop self to_date (current + 1) k = Inl OverflowError"
      if "k = (if is_business_day self current then bds @ [current] else bds)" for k
      using "1.IH" [OF le that step] "1.prems" True by simp
    then show ?thesis using le step by (subst range_loop.simps) (simp add: Let_def)
  next
    case False
    then have "add_days current 1 = Inl OverflowError" by (simp add: add_days_1)
    then show ?thesis using le by (subst range_loop.simps) (simp add: Let_def)
  qed
qed

lemma count_business_days_char:
  assumes "valid_date from_date" "valid_date to_date"
  shows "count_business_days self from_date to_date =
     (if from_date > to_date then Inl ValueError
      else if to_date = MAXORD then Inl OverflowError
      else Inr (int (length (filter (is_business_day self) [from_date..to_date]))))"
  using assms count_loop_eq [of from_date to_date self 0]
    count_loop_overflow [of from_date to_date self 0]
  by (auto simp: count_business_days_def valid_date_def)

lemma get_business_days_in_range_char:
  assumes "valid_date from_date" "valid_date to_date"
  shows "get_business_days_in_range self from_date to_date =
     (if from_date > to_date then Inl ValueError
      else if to_date = MAXORD then Inl OverflowError
      else Inr (filter (is_business_day self) [from_date..to_date]))"
  using assms range_loop_eq [of from_date to_date self "[]"]
    range_loop_overflow [of from_date to_date self "[]"]
  by (auto simp: get_business_days_in_range_def valid_date_def)

text \<open>
  C4 (the code departs from the claim): Friday 9999-12-31 is a business day when there
  are no holidays, and the range from that day to itself is in order, so the count
  should be 1 and the list should hold that day. Both loops step once past the last
  day of the range, and at 9999-12-31 this step raises \<open>OverflowError\<close>. For a range
  that ends before 9999-12-31 the two lemmas above give the count and the list of the
  claim, and \<open>ValueError\<close> exactly when the range is out of order.
\<close>

theorem count_business_days_at_date_max:
  "is_business_day no_holidays 3652059
   \<and> count_business_days no_holidays 3652059 3652059 = Inl OverflowError
   \<and> get_business_days_in_range no_holidays 3652059 3652059 = Inl OverflowError"
  using count_business_days_char [OF valid_dates(6) valid_dates(6), of no_holidays]
    get_business_days_in_range_char [OF valid_dates(6) valid_dates(6), of no_holidays]
  by (simp add: is_business_day_no_holidays weekday_def MAXORD_def)

end
